theory Spec2Isabelle
  imports Main "HOL-Library.Sublist"
begin

section \<open>The Oxford word-list parser of \<^verbatim>\<open>gen_oxford_list.py\<close>\<close>

text \<open>
  The parser works on Python \<^verbatim>\<open>str\<close> values. They are modelled as \<^typ>\<open>string\<close>, one
  \<^typ>\<open>char\<close> per code point, which covers the code points below 256. Every function below
  embeds the source function or library call of the same name; a loop is a recursive
  function over the list it iterates, an exception is the \<open>Inl\<close> branch of a sum, and the
  messages written with \<^verbatim>\<open>logging.debug\<close> are returned as a list of log records, so that
  what a call reports is part of its value.
\<close>

subsection \<open>String methods\<close>

text \<open>\<^verbatim>\<open>str.isspace\<close> on one character, for the code points below 256.\<close>

definition isspace :: "char \<Rightarrow> bool" where
  "isspace c = (c \<in> set [CHR 0x09, CHR 0x0A, CHR 0x0B, CHR 0x0C, CHR 0x0D,
                           CHR 0x1C, CHR 0x1D, CHR 0x1E, CHR 0x1F, CHR 0x20,
                           CHR 0x85, CHR 0xA0])"

text \<open>\<^verbatim>\<open>s.strip()\<close>: leading and trailing whitespace removed.\<close>

definition strip :: "string \<Rightarrow> string" where
  "strip s = rev (dropWhile isspace (rev (dropWhile isspace s)))"

text \<open>\<^verbatim>\<open>s.startswith(p)\<close> and \<^verbatim>\<open>s.endswith(p)\<close>.\<close>

definition startswith :: "string \<Rightarrow> string \<Rightarrow> bool" where
  "startswith s p = prefix p s"

definition endswith :: "string \<Rightarrow> string \<Rightarrow> bool" where
  "endswith s p = suffix p s"

text \<open>
  Splitting at every character that satisfies \<open>sep\<close>: \<^verbatim>\<open>s.split(' ')\<close>,
  \<^verbatim>\<open>s.split('(')\<close>, \<^verbatim>\<open>s.split(')')\<close> and \<^verbatim>\<open>re.split(r',|\/', s)\<close>. Empty pieces are
  kept, and the result is never empty. The last branch of the \<open>case\<close> is never taken.
\<close>

fun split_at :: "(char \<Rightarrow> bool) \<Rightarrow> string \<Rightarrow> string list" where
  "split_at sep [] = [[]]"
| "split_at sep (c # cs) =
     (if sep c then [] # split_at sep cs
      else (case split_at sep cs of p # ps \<Rightarrow> (c # p) # ps | [] \<Rightarrow> [[c]]))"

text \<open>\<^verbatim>\<open>sep.join(xs)\<close>.\<close>

fun join :: "string \<Rightarrow> string list \<Rightarrow> string" where
  "join sep [] = []"
| "join sep [x] = x"
| "join sep (x # xs) = x @ sep @ join sep xs"

text \<open>
  \<^verbatim>\<open>s.replace(old, new)\<close>, written \<open>str_replace old new s\<close>: every occurrence of \<open>old\<close>,
  found from left to right without overlap, is replaced. With an empty \<open>old\<close> Python
  inserts \<open>new\<close> before every character and at the end.
\<close>

function str_replace :: "string \<Rightarrow> string \<Rightarrow> string \<Rightarrow> string" where
  "str_replace old new [] = (if old = [] then new else [])"
| "str_replace old new (c # cs) =
     (if old = [] then new @ c # str_replace old new cs
      else if prefix old (c # cs)
        then new @ str_replace old new (drop (length old) (c # cs))
      else c # str_replace old new cs)"
  by pat_completeness auto
termination
  by (relation "measure (\<lambda>(old, new, s). length s)") auto

subsection \<open>The module's constants and compiled patterns\<close>

text \<open>
  \<^verbatim>\<open>PART_OF_SPEECH_VALUES\<close>. In the source each entry is a regular expression in which the
  dot is escaped; the strings here are the texts those expressions match.
\<close>

definition PART_OF_SPEECH_VALUES :: "string list" where
  "PART_OF_SPEECH_VALUES =
     [''n.'', ''noun.'', ''v.'', ''adj.'', ''adv.'', ''prep.'', ''pron.'', ''conj.'',
      ''interj.'', ''det.'', ''auxiliary'', ''auxiliary v.'', ''aux.'', ''exclam.'',
      ''modal'', ''modal v.'', ''indefinite article'', ''definite article'', ''number'',
      ''infinitive marker'']"

definition LEVEL_VALUES :: "string list" where
  "LEVEL_VALUES = [''A1'', ''A2'', ''B1'', ''B2'', ''C1'', ''C2'']"

text \<open>
  \<^verbatim>\<open>start_with_definition_pattern.match(s)\<close>, the pattern \<^verbatim>\<open>^\((.*?)\)\<close>: an opening
  parenthesis, then the shortest run of characters other than a newline, then a closing
  parenthesis. The result says whether there is a match.
\<close>

definition start_with_definition_pattern :: "string \<Rightarrow> bool" where
  "start_with_definition_pattern s =
     (case s of
        [] \<Rightarrow> False
      | c # cs \<Rightarrow> c = CHR ''('' \<and>
          (case dropWhile (\<lambda>x. x \<noteq> CHR '')'' \<and> x \<noteq> CHR 0x0A) cs of
             [] \<Rightarrow> False
           | d # _ \<Rightarrow> d = CHR '')''))"

text \<open>
  \<^verbatim>\<open>start_with_part_of_speech_pattern.match(s)\<close>: the text begins with one of the
  alternatives.
\<close>

definition start_with_part_of_speech_pattern :: "string \<Rightarrow> bool" where
  "start_with_part_of_speech_pattern s = list_ex (\<lambda>v. prefix v s) PART_OF_SPEECH_VALUES"

text \<open>
  \<^verbatim>\<open>part_of_speech_pattern.match(s)\<close>: one alternative between \<^verbatim>\<open>^\<close> and \<^verbatim>\<open>$\<close>. Python's
  \<^verbatim>\<open>$\<close> also matches just before a newline that ends the text.
\<close>

definition part_of_speech_pattern :: "string \<Rightarrow> bool" where
  "part_of_speech_pattern s =
     list_ex (\<lambda>v. s = v \<or> s = v @ [CHR 0x0A]) PART_OF_SPEECH_VALUES"

text \<open>
  \<^verbatim>\<open>level_pattern.search(s)\<close>: the leftmost position at which one of the level codes
  begins; the result is group 1 of the match, \<open>None\<close> when there is no match.
\<close>

fun level_pattern_search :: "string \<Rightarrow> string option" where
  "level_pattern_search [] = None"
| "level_pattern_search (c # cs) =
     (case find (\<lambda>l. prefix l (c # cs)) LEVEL_VALUES of
        Some l \<Rightarrow> Some l
      | None \<Rightarrow> level_pattern_search cs)"

text \<open>
  \<^verbatim>\<open>re.split(r'(A1|A2|B1|B2|C1|C2),', s)\<close>: the text is cut at every level code that is
  directly followed by a comma; the pieces of text and the captured level codes
  alternate in the result, and the comma is dropped. The last branch of the inner
  \<open>case\<close> is never taken.
\<close>

function level_comma_split :: "string \<Rightarrow> string list" where
  "level_comma_split [] = [[]]"
| "level_comma_split (c # cs) =
     (case find (\<lambda>l. prefix (l @ '','') (c # cs)) LEVEL_VALUES of
        Some l \<Rightarrow> [] # l # level_comma_split (drop (length l + 1) (c # cs))
      | None \<Rightarrow>
          (case level_comma_split cs of p # ps \<Rightarrow> (c # p) # ps | [] \<Rightarrow> [[c]]))"
  by pat_completeness auto
termination
  by (relation "measure length") auto

subsection \<open>Log records, results and errors\<close>

text \<open>One constructor for each \<^verbatim>\<open>logging.debug\<close> call of the two parsing functions.\<close>

datatype log_record =
    BEGIN_PARSING_WORD_ENTRY string
  | FOUND_WORD string
  | LINE_AFTER_REMOVING_WORD string
  | SUBENTRY string
  | DEFINITION string
  | LEVEL string
  | LEVEL_NOT_FOUND string
  | PART_OF_SPEECH_NOT_MATCHED string
  | PART_OF_SPEECH "string list"

text \<open>
  The four kinds of diagnostic, and the kind a log record stands for. The source reports
  an anomaly in two places only: a level that was not found and a part-of-speech candidate
  that did not match. Every other message traces normal progress.
\<close>

datatype diagnostic_kind =
  NoWordBoundaryFound | EmptySubentryList | MissingLevel | UnrecognizedPartOfSpeech

fun diagnostic_of :: "log_record \<Rightarrow> diagnostic_kind option" where
  "diagnostic_of (LEVEL_NOT_FOUND s) = Some MissingLevel"
| "diagnostic_of (PART_OF_SPEECH_NOT_MATCHED s) = Some UnrecognizedPartOfSpeech"
| "diagnostic_of r = None"

definition diagnostics :: "log_record list \<Rightarrow> diagnostic_kind list" where
  "diagnostics lg = List.map_filter diagnostic_of lg"

text \<open>
  The exceptions the two functions can raise: reading the local \<^verbatim>\<open>level\<close> before it is
  bound, and indexing a list out of range.
\<close>

datatype error = UnboundLocalError | IndexError

text \<open>
  \<^verbatim>\<open>parse_subentry\<close> returns nothing; what it has computed when it ends is held in its
  locals \<^verbatim>\<open>definition\<close>, \<^verbatim>\<open>part_of_speech\<close> and \<^verbatim>\<open>level\<close>, which are the fields here.
\<close>

record parsed_subentry =
  defn :: string
  part_of_speech :: "string list"
  level :: string

text \<open>
  The locals of \<^verbatim>\<open>parse_word_entry\<close> when it ends: \<^verbatim>\<open>word\<close>, \<^verbatim>\<open>line\<close> after line 110,
  \<^verbatim>\<open>subentries\<close>, and the results of the calls of \<^verbatim>\<open>parse_subentry\<close>.
\<close>

record word_entry =
  word :: string
  remainder :: string
  subentries :: "string list"
  parsed :: "parsed_subentry list"

subsection \<open>\<^verbatim>\<open>parse_subentry\<close>\<close>

text \<open>
  Lines 40 to 44: \<^verbatim>\<open>subentry.split('(')[1].split(')')[0]\<close> when the text starts with a
  parenthesis, the empty string otherwise.
\<close>

definition parse_definition :: "string \<Rightarrow> error + string" where
  "parse_definition subentry =
     (if startswith subentry ''(''
      then (case split_at (\<lambda>c. c = CHR ''('') subentry of
              _ # p # _ \<Rightarrow>
                (case split_at (\<lambda>c. c = CHR '')'') p of
                   d # _ \<Rightarrow> Inr d
                 | [] \<Rightarrow> Inl IndexError)
            | _ \<Rightarrow> Inl IndexError)
      else Inr [])"

text \<open>
  Lines 62 to 71, the loop over the candidates: the matched tags and the log records of
  the candidates that did not match.
\<close>

fun part_of_speech_loop :: "string list \<Rightarrow> string list \<times> log_record list" where
  "part_of_speech_loop [] = ([], [])"
| "part_of_speech_loop (c # cs) =
     (let part_of_speech_candidate = strip c;
          (tags, lg) = part_of_speech_loop cs
      in if part_of_speech_candidate = [] then (tags, lg)
         else if part_of_speech_pattern part_of_speech_candidate
           then (part_of_speech_candidate # tags, lg)
         else (tags, PART_OF_SPEECH_NOT_MATCHED part_of_speech_candidate # lg))"

text \<open>The working text after line 47, given the definition.\<close>

definition without_definition :: "string \<Rightarrow> string \<Rightarrow> string" where
  "without_definition d subentry = strip (str_replace (''('' @ d @ '')'') [] subentry)"

text \<open>The working text after line 58, given the level.\<close>

definition without_level :: "string \<Rightarrow> string \<Rightarrow> string" where
  "without_level l subentry = strip (str_replace l [] subentry)"

definition part_of_speech_candidates :: "string \<Rightarrow> string list" where
  "part_of_speech_candidates subentry =
     split_at (\<lambda>c. c = CHR '','' \<or> c = CHR ''/'') subentry"

definition parse_subentry :: "string \<Rightarrow> log_record list \<times> (error + parsed_subentry)" where
  "parse_subentry subentry =
     (case parse_definition subentry of
        Inl e \<Rightarrow> ([], Inl e)
      | Inr d \<Rightarrow>
          (let lg1 = (if startswith subentry ''('' then [DEFINITION d] else []);
               subentry1 = without_definition d subentry
           in case level_pattern_search subentry1 of
                None \<Rightarrow> (lg1 @ [LEVEL_NOT_FOUND subentry1], Inl UnboundLocalError)
              | Some l \<Rightarrow>
                  (let subentry2 = without_level l subentry1;
                       (tags, lg2) = part_of_speech_loop (part_of_speech_candidates subentry2)
                   in (lg1 @ [LEVEL l] @ lg2 @ [PART_OF_SPEECH tags],
                       Inr \<lparr>defn = d, part_of_speech = tags, level = l\<rparr>))))"

subsection \<open>\<^verbatim>\<open>parse_word_entry\<close>\<close>

text \<open>
  Lines 90 to 105 for the indices from 1 on: the argument is \<^verbatim>\<open>line_parts\<close> from the
  current index, the result the parts appended before the loop breaks or ends.
\<close>

fun word_loop :: "string list \<Rightarrow> string list" where
  "word_loop [] = []"
| "word_loop (p # ps) =
     (let remaining_line = join '' '' (p # ps)
      in if start_with_definition_pattern remaining_line then []
         else if start_with_part_of_speech_pattern remaining_line then []
         else p # word_loop ps)"

text \<open>\<^verbatim>\<open>word_parts\<close> after the loop: the part at index 0 is appended whatever it is.\<close>

definition word_parts :: "string \<Rightarrow> string list" where
  "word_parts line =
     (case split_at (\<lambda>c. c = CHR '' '') line of
        [] \<Rightarrow> []
      | p # ps \<Rightarrow> p # word_loop ps)"

definition found_word :: "string \<Rightarrow> string" where
  "found_word line = join '' '' (word_parts line)"

text \<open>Line 110: \<^verbatim>\<open>line.replace(word, '').strip()\<close>.\<close>

definition line_after_removing_word :: "string \<Rightarrow> string" where
  "line_after_removing_word line = strip (str_replace (found_word line) [] line)"

text \<open>
  Lines 120 to 132: the loop over the pieces, with the local \<^verbatim>\<open>subentry_part\<close> as first
  argument; the result is what is appended to \<^verbatim>\<open>subentries\<close>. The counter \<^verbatim>\<open>index\<close> of
  the source is never read.
\<close>

fun subentry_loop :: "string \<Rightarrow> string list \<Rightarrow> string list" where
  "subentry_loop subentry_part [] = []"
| "subentry_loop subentry_part (c # cs) =
     (let candidate = strip c
      in if candidate = [] then subentry_loop subentry_part cs
         else if candidate \<in> set LEVEL_VALUES
           then (subentry_part @ '' '' @ candidate) # subentry_loop subentry_part cs
         else if list_ex (endswith candidate) LEVEL_VALUES
           then candidate # subentry_loop subentry_part cs
         else subentry_loop candidate cs)"

text \<open>Lines 116 to 132: from the text left after the word to the raw subentries.\<close>

definition split_subentries :: "string \<Rightarrow> string list" where
  "split_subentries line = subentry_loop [] (level_comma_split line)"

text \<open>
  Lines 139 and 140: \<^verbatim>\<open>parse_subentry\<close> on each subentry in turn; an exception ends the
  loop, and the log keeps what was written before it.
\<close>

fun parse_subentries :: "string list \<Rightarrow> log_record list \<times> (error + parsed_subentry list)" where
  "parse_subentries [] = ([], Inr [])"
| "parse_subentries (s # ss) =
     (case parse_subentry s of
        (lg, Inl e) \<Rightarrow> (lg, Inl e)
      | (lg, Inr r) \<Rightarrow>
          (case parse_subentries ss of
             (lg', Inl e) \<Rightarrow> (lg @ lg', Inl e)
           | (lg', Inr rs) \<Rightarrow> (lg @ lg', Inr (r # rs))))"

definition parse_word_entry :: "string \<Rightarrow> log_record list \<times> (error + word_entry)" where
  "parse_word_entry line =
     (let w = found_word line;
          line1 = line_after_removing_word line;
          subs = split_subentries line1;
          (lg, res) = parse_subentries subs
      in ([BEGIN_PARSING_WORD_ENTRY line, FOUND_WORD w, LINE_AFTER_REMOVING_WORD line1]
            @ map SUBENTRY subs @ lg,
          case res of
            Inl e \<Rightarrow> Inl e
          | Inr rs \<Rightarrow> Inr \<lparr>word = w, remainder = line1, subentries = subs, parsed = rs\<rparr>))"

subsection \<open>Counting level codes\<close>

text \<open>
  The number of positions of a text at which one of the six level codes begins; it is
  the measure for ``exactly one occurrence of a level code''.
\<close>

fun level_occurrences :: "string \<Rightarrow> nat" where
  "level_occurrences [] = 0"
| "level_occurrences (c # cs) =
     (if list_ex (\<lambda>l. prefix l (c # cs)) LEVEL_VALUES then 1 else 0) + level_occurrences cs"

section \<open>Basic facts\<close>

subsection \<open>Splitting, stripping and searching\<close>


lemma level_comma_split_not_Nil: "level_comma_split s \<noteq> []"
  by (induction s rule: level_comma_split.induct) (auto split: option.splits list.splits)

lemma strip_decomp: "\<exists>x y. s = x @ strip s @ y"
proof -
  let ?t = "dropWhile isspace s"
  have a: "s = takeWhile isspace s @ ?t" by simp
  have "rev (takeWhile isspace (rev ?t) @ dropWhile isspace (rev ?t)) = ?t"
    by (simp only: takeWhile_dropWhile_id rev_rev_ident)
  then have b: "strip s @ rev (takeWhile isspace (rev ?t)) = ?t"
    by (simp only: rev_append strip_def)
  from a b show ?thesis by metis
qed

lemma strip_last: "strip s \<noteq> [] \<Longrightarrow> \<not> isspace (last (strip s))"
  unfolding strip_def by (simp add: last_rev hd_dropWhile)

lemma level_length: "l \<in> set LEVEL_VALUES \<Longrightarrow> length l = 2"
  by (auto simp: LEVEL_VALUES_def)

lemma level_search_None_iff:
  "level_pattern_search s = None \<longleftrightarrow> (\<forall>l\<in>set LEVEL_VALUES. \<forall>x y. s \<noteq> x @ l @ y)"
proof (induction s)
  case Nil
  then show ?case by (auto dest: level_length)
next
  case (Cons c cs)
  have "level_pattern_search (c # cs) = None \<longleftrightarrow>
        (\<forall>l\<in>set LEVEL_VALUES. \<not> prefix l (c # cs)) \<and> level_pattern_search cs = None"
  proof (cases "find (\<lambda>l. prefix l (c # cs)) LEVEL_VALUES")
    case None
    then have "\<forall>l\<in>set LEVEL_VALUES. \<not> prefix l (c # cs)"
      by (simp add: find_None_iff)
    with None show ?thesis by simp
  next
    case (Some l)
    then have "\<not> (\<forall>l\<in>set LEVEL_VALUES. \<not> prefix l (c # cs))"
      by (metis find_None_iff option.distinct(1))
    with Some show ?thesis by simp
  qed
  also have "\<dots> \<longleftrightarrow> (\<forall>l\<in>set LEVEL_VALUES. \<forall>x y. c # cs \<noteq> x @ l @ y)"
  proof
    assume h: "(\<forall>l\<in>set LEVEL_VALUES. \<not> prefix l (c # cs)) \<and> level_pattern_search cs = None"
    show "\<forall>l\<in>set LEVEL_VALUES. \<forall>x y. c # cs \<noteq> x @ l @ y"
    proof (intro ballI allI notI)
      fix l x y assume l: "l \<in> set LEVEL_VALUES" and e: "c # cs = x @ l @ y"
      show False
      proof (cases x)
        case Nil
        with e have "prefix l (c # cs)" by (simp add: prefix_def)
        with h l show False by blast
      next
        case (Cons a x')
        with e have "cs = x' @ l @ y" by simp
        with h l Cons.IH show False by blast
      qed
    qed
  next
    assume h: "\<forall>l\<in>set LEVEL_VALUES. \<forall>x y. c # cs \<noteq> x @ l @ y"
    have 1: "\<forall>l\<in>set LEVEL_VALUES. \<not> prefix l (c # cs)"
    proof (intro ballI notI)
      fix l assume l: "l \<in> set LEVEL_VALUES" and p: "prefix l (c # cs)"
      then obtain y where "c # cs = [] @ l @ y" by (auto simp: prefix_def)
      with h l show False by blast
    qed
    have 2: "level_pattern_search cs = None"
      unfolding Cons.IH
    proof (intro ballI allI notI)
      fix l x y assume l: "l \<in> set LEVEL_VALUES" and e: "cs = x @ l @ y"
      then have "c # cs = (c # x) @ l @ y" by simp
      with h l show False by blast
    qed
    from 1 2 show "(\<forall>l\<in>set LEVEL_VALUES. \<not> prefix l (c # cs)) \<and> level_pattern_search cs = None" ..
  qed
  finally show ?case .
qed

lemma no_level_infix:
  assumes "level_pattern_search (x @ s @ y) = None"
  shows "level_pattern_search s = None"
  unfolding level_search_None_iff
proof (intro ballI allI notI)
  fix l u v assume l: "l \<in> set LEVEL_VALUES" and e: "s = u @ l @ v"
  then have "x @ s @ y = (x @ u) @ l @ (v @ y)" by simp
  with assms l show False unfolding level_search_None_iff by blast
qed

lemma no_level_strip:
  "level_pattern_search s = None \<Longrightarrow> level_pattern_search (strip s) = None"
  using strip_decomp[of s] no_level_infix by metis

lemma no_level_not_level:
  "level_pattern_search s = None \<Longrightarrow> s \<notin> set LEVEL_VALUES"
  unfolding level_search_None_iff by (metis append_Nil append_Nil2)

lemma no_level_not_endswith:
  "level_pattern_search s = None \<Longrightarrow> \<not> list_ex (endswith s) LEVEL_VALUES"
  unfolding level_search_None_iff list_ex_iff endswith_def suffix_def
  by (metis append_Nil2)

lemma no_level_comma_split:
  "level_pattern_search s = None \<Longrightarrow> level_comma_split s = [s]"
proof (induction s)
  case Nil
  then show ?case by simp
next
  case (Cons c cs)
  from Cons.prems have a: "\<forall>l\<in>set LEVEL_VALUES. \<not> prefix l (c # cs)"
    and b: "level_pattern_search cs = None"
    by (auto simp: find_None_iff split: option.splits)
  from a have "find (\<lambda>l. prefix (l @ '','') (c # cs)) LEVEL_VALUES = None"
    unfolding find_None_iff by (meson append_prefixD)
  with Cons.IH[OF b] show ?case by simp
qed

lemma split_subentries_no_level:
  assumes "level_pattern_search s = None"
  shows "split_subentries s = []"
proof -
  have n: "level_pattern_search (strip s) = None" using assms by (rule no_level_strip)
  show ?thesis
    using no_level_not_level[OF n] no_level_not_endswith[OF n]
    by (simp add: split_subentries_def no_level_comma_split[OF assms] Let_def)
qed

lemma find_SomeD: "find P xs = Some x \<Longrightarrow> x \<in> set xs \<and> P x"
  by (induction xs) (auto split: if_splits)

lemma level_not_Nil: "l \<in> set LEVEL_VALUES \<Longrightarrow> l \<noteq> []"
  by (auto dest: level_length)

section \<open>The example line of the specification\<close>

text \<open>
  C2. The line \<^verbatim>\<open>bank (money) n. B1, (land) n. A2\<close> goes through the whole pipeline: the
  word is \<^verbatim>\<open>bank\<close>, and exactly two subentries are parsed, in this order: definition
  \<^verbatim>\<open>money\<close>, tags \<^verbatim>\<open>n.\<close>, level \<^verbatim>\<open>B1\<close>, then definition \<^verbatim>\<open>land\<close>, tags \<^verbatim>\<open>n.\<close>, level
  \<^verbatim>\<open>A2\<close>. No exception is raised, and the log holds no anomaly.
\<close>

theorem C2_bank_example:
  "parse_word_entry ''bank (money) n. B1, (land) n. A2'' =
     ([BEGIN_PARSING_WORD_ENTRY ''bank (money) n. B1, (land) n. A2'',
       FOUND_WORD ''bank'',
       LINE_AFTER_REMOVING_WORD ''(money) n. B1, (land) n. A2'',
       SUBENTRY ''(money) n. B1'', SUBENTRY ''(land) n. A2'',
       DEFINITION ''money'', LEVEL ''B1'', PART_OF_SPEECH [''n.''],
       DEFINITION ''land'', LEVEL ''A2'', PART_OF_SPEECH [''n.'']],
      Inr \<lparr>word = ''bank'', remainder = ''(money) n. B1, (land) n. A2'',
           subentries = [''(money) n. B1'', ''(land) n. A2''],
           parsed =
             [\<lparr>defn = ''money'', part_of_speech = [''n.''], level = ''B1''\<rparr>,
              \<lparr>defn = ''land'', part_of_speech = [''n.''], level = ''A2''\<rparr>]\<rparr>)"
  by code_simp

section \<open>The subentry parser\<close>

subsection \<open>The level and its removal\<close>

lemma level_search_first:
  "level_pattern_search s = Some l \<Longrightarrow>
     l \<in> set LEVEL_VALUES \<and>
     (\<exists>pre post. s = pre @ l @ post \<and> level_pattern_search (pre @ butlast l) = None \<and>
        str_replace l [] s = pre @ str_replace l [] post)"
proof (induction s)
  case Nil
  then show ?case by simp
next
  case (Cons c cs)
  show ?case
  proof (cases "find (\<lambda>l. prefix l (c # cs)) LEVEL_VALUES")
    case (Some l')
    with Cons.prems have ll: "l' = l" by simp
    from find_SomeD[OF Some] ll have l: "l \<in> set LEVEL_VALUES" and p: "prefix l (c # cs)"
      by simp_all
    from p obtain post where post: "c # cs = l @ post" by (auto simp: prefix_def)
    from l obtain a b where ab: "l = [a, b]" by (auto simp: LEVEL_VALUES_def)
    have 1: "level_pattern_search ([] @ butlast l) = None"
      unfolding level_search_None_iff
    proof (intro ballI allI notI)
      fix k x y assume "k \<in> set LEVEL_VALUES" and "[] @ butlast l = x @ k @ y"
      then have "length ([] @ butlast l) = length (x @ k @ y)" and "length k = 2"
        by (simp_all add: level_length)
      with ab show False by simp
    qed
    have "str_replace l [] (c # cs) = str_replace l [] (drop (length l) (c # cs))"
      using p level_not_Nil[OF l] by simp
    moreover have "drop (length l) (c # cs) = post"
      unfolding post by simp
    ultimately have 2: "str_replace l [] (c # cs) = [] @ str_replace l [] post"
      by simp
    from l post 1 2 show ?thesis by (metis append_Nil)
  next
    case None
    with Cons.prems have s: "level_pattern_search cs = Some l" by simp
    from Cons.IH[OF s] obtain pre post where l: "l \<in> set LEVEL_VALUES"
      and e: "cs = pre @ l @ post"
      and n: "level_pattern_search (pre @ butlast l) = None"
      and r: "str_replace l [] cs = pre @ str_replace l [] post" by blast
    from None have np: "\<forall>k\<in>set LEVEL_VALUES. \<not> prefix k (c # cs)"
      by (simp add: find_None_iff)
    have bl: "butlast l @ [last l] = l" using level_not_Nil[OF l] by simp
    have pp: "prefix (c # pre @ butlast l) (c # cs)"
    proof -
      have "c # cs = (c # pre @ butlast l) @ ([last l] @ post)"
        using e bl by simp
      then show ?thesis unfolding prefix_def by blast
    qed
    have "\<forall>k\<in>set LEVEL_VALUES. \<not> prefix k (c # pre @ butlast l)"
      using np pp prefix_order.trans by blast
    then have "find (\<lambda>k. prefix k (c # pre @ butlast l)) LEVEL_VALUES = None"
      by (simp add: find_None_iff)
    with n have 1: "level_pattern_search ((c # pre) @ butlast l) = None" by simp
    from np l have "\<not> prefix l (c # cs)" by blast
    with r level_not_Nil[OF l] have 2: "str_replace l [] (c # cs) = (c # pre) @ str_replace l [] post"
      by simp
    from e have 3: "c # cs = (c # pre) @ l @ post" by simp
    from l 1 2 3 show ?thesis by blast
  qed
qed

text \<open>
  C6, as stated, fails: in \<^verbatim>\<open>n. B2/v. B2\<close> the level recorded is the first \<^verbatim>\<open>B2\<close>, but
  line 58 removes the second \<^verbatim>\<open>B2\<close> as well. The working text becomes \<^verbatim>\<open>n. /v.\<close>, not
  \<^verbatim>\<open>n. /v. B2\<close>, and both tags are matched.
\<close>

theorem C6_counterexample:
  "level_pattern_search ''n. B2/v. B2'' = Some ''B2'' \<and>
   without_level ''B2'' ''n. B2/v. B2'' = ''n. /v.'' \<and>
   without_level ''B2'' ''n. B2/v. B2'' \<noteq> ''n. /v. B2'' \<and>
   parse_subentry ''n. B2/v. B2'' =
     ([LEVEL ''B2'', PART_OF_SPEECH [''n.'', ''v.'']],
      Inr \<lparr>defn = [], part_of_speech = [''n.'', ''v.''], level = ''B2''\<rparr>)"
  by code_simp

text \<open>
  C6, amended. When \<^verbatim>\<open>parse_subentry\<close> ends normally, the level it records is a level
  code, and it is the first one of the working text: the text is \<open>pre @ level @ post\<close>
  with no level code beginning inside \<open>pre\<close>. The tags are extracted from \<open>pre\<close>
  followed by \<open>post\<close> with every occurrence of that level code removed, stripped: the
  first occurrence and every later one go.
\<close>

theorem C6_level_removed_everywhere:
  assumes "parse_subentry s = (lg, Inr r)"
  shows "level r \<in> set LEVEL_VALUES \<and>
         (\<exists>pre post.
            without_definition (defn r) s = pre @ level r @ post \<and>
            level_pattern_search (pre @ butlast (level r)) = None \<and>
            part_of_speech r =
              fst (part_of_speech_loop (part_of_speech_candidates
                     (strip (pre @ str_replace (level r) [] post)))))"
proof -
  from assms obtain d l where d: "parse_definition s = Inr d"
    and l: "level_pattern_search (without_definition d s) = Some l"
    and r: "r = \<lparr>defn = d,
                 part_of_speech = fst (part_of_speech_loop
                   (part_of_speech_candidates (without_level l (without_definition d s)))),
                 level = l\<rparr>"
    unfolding parse_subentry_def
    by (auto simp: Let_def split: sum.splits option.splits prod.splits)
  from level_search_first[OF l] obtain pre post where m: "l \<in> set LEVEL_VALUES"
    and e: "without_definition d s = pre @ l @ post"
    and n: "level_pattern_search (pre @ butlast l) = None"
    and p: "str_replace l [] (without_definition d s) = pre @ str_replace l [] post"
    by blast
  from p have "without_level l (without_definition d s) = strip (pre @ str_replace l [] post)"
    by (simp add: without_level_def)
  with r m e n show ?thesis by auto
qed

text \<open>The theorem of C6 at the subentry \<^verbatim>\<open>n. B2, v. B2\<close>, which holds its level twice.\<close>

theorem C6_witness:
  "parse_subentry ''n. B2, v. B2'' =
     ([LEVEL ''B2'', PART_OF_SPEECH [''n.'', ''v.'']],
      Inr \<lparr>defn = [], part_of_speech = [''n.'', ''v.''], level = ''B2''\<rparr>) \<and>
   (\<exists>pre post.
      without_definition [] ''n. B2, v. B2'' = pre @ ''B2'' @ post \<and>
      level_pattern_search (pre @ butlast ''B2'') = None \<and>
      [''n.'', ''v.''] = fst (part_of_speech_loop (part_of_speech_candidates
                  (strip (pre @ str_replace ''B2'' [] post)))))"
proof -
  have h: "parse_subentry ''n. B2, v. B2'' =
     ([LEVEL ''B2'', PART_OF_SPEECH [''n.'', ''v.'']],
      Inr \<lparr>defn = [], part_of_speech = [''n.'', ''v.''], level = ''B2''\<rparr>)"
    by code_simp
  from C6_level_removed_everywhere[OF h] h show ?thesis by simp
qed

subsection \<open>The tags\<close>

lemma part_of_speech_pattern_strip:
  assumes "part_of_speech_pattern (strip c)"
  shows "strip c \<in> set PART_OF_SPEECH_VALUES"
proof -
  from assms obtain v where v: "v \<in> set PART_OF_SPEECH_VALUES"
    and e: "strip c = v \<or> strip c = v @ [CHR 0x0A]"
    unfolding part_of_speech_pattern_def list_ex_iff by blast
  from e show ?thesis
  proof
    assume "strip c = v"
    with v show ?thesis by simp
  next
    assume n: "strip c = v @ [CHR 0x0A]"
    then have "strip c \<noteq> []" and "last (strip c) = CHR 0x0A" by simp_all
    with strip_last[of c] have "\<not> isspace (CHR 0x0A)" by simp
    then show ?thesis by (simp add: isspace_def)
  qed
qed

lemma part_of_speech_loop_tags:
  "set (fst (part_of_speech_loop cs)) \<subseteq> set PART_OF_SPEECH_VALUES"
proof (induction cs)
  case Nil
  then show ?case by simp
next
  case (Cons c cs)
  then show ?case
    by (auto simp: Let_def split: prod.splits dest: part_of_speech_pattern_strip)
qed

lemma part_of_speech_loop_subseq:
  "subseq (fst (part_of_speech_loop cs)) (map strip cs)"
proof (induction cs)
  case Nil
  then show ?case by simp
next
  case (Cons c cs)
  then show ?case
    by (auto simp: Let_def split: prod.splits)
qed

text \<open>
  C9, as stated, fails on the size of the vocabulary: \<^verbatim>\<open>PART_OF_SPEECH_VALUES\<close> has 20
  entries, not 21.
\<close>

theorem C9_counterexample:
  "length PART_OF_SPEECH_VALUES \<noteq> 21"
  by code_simp

text \<open>
  C9, amended. The vocabulary has 20 entries, all different. When \<^verbatim>\<open>parse_subentry\<close>
  ends normally, every tag it has collected is one of these entries, and the tags are a
  subsequence of the stripped candidates, in the order in which the candidates occur in
  the working text.
\<close>

theorem C9_closed_vocabulary:
  assumes "parse_subentry s = (lg, Inr r)"
  shows "length PART_OF_SPEECH_VALUES = 20 \<and> distinct PART_OF_SPEECH_VALUES \<and>
         set (part_of_speech r) \<subseteq> set PART_OF_SPEECH_VALUES \<and>
         subseq (part_of_speech r)
           (map strip (part_of_speech_candidates
              (without_level (level r) (without_definition (defn r) s))))"
proof -
  have n: "length PART_OF_SPEECH_VALUES = 20 \<and> distinct PART_OF_SPEECH_VALUES"
    by (simp add: PART_OF_SPEECH_VALUES_def)
  from assms obtain d l where d: "parse_definition s = Inr d"
    and l: "level_pattern_search (without_definition d s) = Some l"
    and r: "r = \<lparr>defn = d,
                 part_of_speech = fst (part_of_speech_loop
                   (part_of_speech_candidates (without_level l (without_definition d s)))),
                 level = l\<rparr>"
    unfolding parse_subentry_def
    by (auto simp: Let_def split: sum.splits option.splits prod.splits)
  from r part_of_speech_loop_tags part_of_speech_loop_subseq n show ?thesis by simp
qed

text \<open>
  The theorem of C9 at \<^verbatim>\<open>(money) n., oops/v. B1\<close>: the candidate \<^verbatim>\<open>oops\<close> is dropped and
  reported, \<^verbatim>\<open>n.\<close> and \<^verbatim>\<open>v.\<close> are kept in their order.
\<close>

theorem C9_witness:
  "parse_subentry ''(money) n., oops/v. B1'' =
     ([DEFINITION ''money'', LEVEL ''B1'', PART_OF_SPEECH_NOT_MATCHED ''oops'',
       PART_OF_SPEECH [''n.'', ''v.'']],
      Inr \<lparr>defn = ''money'', part_of_speech = [''n.'', ''v.''], level = ''B1''\<rparr>) \<and>
   set [''n.'', ''v.''] \<subseteq> set PART_OF_SPEECH_VALUES \<and>
   subseq [''n.'', ''v.'']
     (map strip (part_of_speech_candidates
        (without_level ''B1'' (without_definition ''money'' ''(money) n., oops/v. B1''))))"
proof -
  have h: "parse_subentry ''(money) n., oops/v. B1'' =
     ([DEFINITION ''money'', LEVEL ''B1'', PART_OF_SPEECH_NOT_MATCHED ''oops'',
       PART_OF_SPEECH [''n.'', ''v.'']],
      Inr \<lparr>defn = ''money'', part_of_speech = [''n.'', ''v.''], level = ''B1''\<rparr>)"
    by code_simp
  from C9_closed_vocabulary[OF h] h show ?thesis by simp
qed

section \<open>The word at the start of a line\<close>

lemma split_at_first:
  "\<exists>ps. split_at (\<lambda>c. c = a) s = takeWhile (\<lambda>c. c \<noteq> a) s # ps"
  by (induction s) (auto split: list.splits)

lemma prefix_join: "prefix x (join sep (x # xs))"
  by (cases xs) simp_all

lemma takeWhile_prefix_mono:
  "(\<And>x. P x \<Longrightarrow> Q x) \<Longrightarrow> prefix (takeWhile P xs) (takeWhile Q xs)"
  by (induction xs) auto

lemma trimmed_hd:
  assumes "line \<noteq> []" and "strip line = line"
  shows "\<not> isspace (hd line)"
proof
  assume sp: "isspace (hd line)"
  from assms(1) obtain c cs where l: "line = c # cs" by (cases line) auto
  with sp have "dropWhile isspace line = dropWhile isspace cs" by simp
  then have "length (dropWhile isspace line) \<le> length cs"
    by (simp add: length_dropWhile_le)
  moreover have "length (strip line) \<le> length (dropWhile isspace line)"
    unfolding strip_def by (metis length_dropWhile_le length_rev)
  ultimately have "length (strip line) < length line" using l by simp
  with assms(2) show False by simp
qed

text \<open>
  C8. Let the line be non-empty and trimmed. Then its first whitespace-delimited token is
  not empty and the word begins with it, whatever the token is and whatever follows it:
  the text before the first space is the first of the word parts unconditionally. Hence
  the word is never empty.
\<close>

theorem C8_first_token_in_word:
  assumes "line \<noteq> []" and "strip line = line"
  shows "takeWhile (\<lambda>c. \<not> isspace c) line \<noteq> [] \<and>
         prefix (takeWhile (\<lambda>c. \<not> isspace c) line) (found_word line) \<and>
         (\<exists>rest. word_parts line = takeWhile (\<lambda>c. c \<noteq> CHR '' '') line # rest) \<and>
         found_word line \<noteq> []"
proof -
  let ?tok = "takeWhile (\<lambda>c. c \<noteq> CHR '' '') line"
  let ?wtok = "takeWhile (\<lambda>c. \<not> isspace c) line"
  obtain ps where ps: "split_at (\<lambda>c. c = CHR '' '') line = ?tok # ps"
    using split_at_first by blast
  then have w: "word_parts line = ?tok # word_loop ps"
    by (simp add: word_parts_def)
  then have p: "prefix ?tok (found_word line)"
    by (simp add: found_word_def prefix_join)
  have pt: "prefix ?wtok ?tok"
    by (rule takeWhile_prefix_mono) (auto simp: isspace_def)
  from pt p have pw: "prefix ?wtok (found_word line)" by (rule prefix_order.trans)
  from trimmed_hd[OF assms] assms(1) have ne: "?wtok \<noteq> []" by (cases line) auto
  with pw have "found_word line \<noteq> []" by auto
  with ne pw w show ?thesis by blast
qed

text \<open>
  The theorem of C8 at \<^verbatim>\<open>number n. A1\<close>, a line whose first token is itself a
  part-of-speech marker and whose second token is one too.
\<close>

theorem C8_witness:
  "''number n. A1'' \<noteq> [] \<and> strip ''number n. A1'' = ''number n. A1'' \<and>
   takeWhile (\<lambda>c. \<not> isspace c) ''number n. A1'' = ''number'' \<and>
   start_with_part_of_speech_pattern ''number n. A1'' \<and>
   start_with_part_of_speech_pattern ''n. A1'' \<and>
   prefix ''number'' (found_word ''number n. A1'') \<and>
   found_word ''number n. A1'' \<noteq> []"
proof -
  have a: "''number n. A1'' \<noteq> []" by simp
  have b: "strip ''number n. A1'' = ''number n. A1''" by code_simp
  have c: "takeWhile (\<lambda>c. \<not> isspace c) ''number n. A1'' = ''number''" by code_simp
  have d: "start_with_part_of_speech_pattern ''number n. A1'' \<and>
           start_with_part_of_speech_pattern ''n. A1''" by code_simp
  from C8_first_token_in_word[OF a b] a b c d show ?thesis by simp
qed

text \<open>
  C5. Line 110 removes every occurrence of the word from the line, not only the leading
  one: for \<^verbatim>\<open>in (inside) prep. A1\<close> the word is \<^verbatim>\<open>in\<close>, the text left is
  \<^verbatim>\<open>(side) prep. A1\<close>, and the definition that is parsed is \<^verbatim>\<open>side\<close>. C5 asks for the
  later occurrence to stay in the text.
\<close>

theorem C5_every_occurrence_removed:
  "found_word ''in (inside) prep. A1'' = ''in'' \<and>
   line_after_removing_word ''in (inside) prep. A1'' = ''(side) prep. A1'' \<and>
   snd (parse_word_entry ''in (inside) prep. A1'') =
     Inr \<lparr>word = ''in'', remainder = ''(side) prep. A1'',
          subentries = [''(side) prep. A1''],
          parsed = [\<lparr>defn = ''side'', part_of_speech = [''prep.''], level = ''A1''\<rparr>]\<rparr>"
  by code_simp

section \<open>Splitting into subentries\<close>

subsection \<open>A text without a level code\<close>

text \<open>
  C7, as stated, fails: for the line \<^verbatim>\<open>w n. junk\<close> the text left after the word holds
  no level code and no subentry is produced, but nothing is reported. The log holds the
  three trace messages only.
\<close>

theorem C7_counterexample:
  "level_pattern_search (line_after_removing_word ''w n. junk'') = None \<and>
   parse_word_entry ''w n. junk'' =
     ([BEGIN_PARSING_WORD_ENTRY ''w n. junk'', FOUND_WORD ''w'',
       LINE_AFTER_REMOVING_WORD ''n. junk''],
      Inr \<lparr>word = ''w'', remainder = ''n. junk'', subentries = [], parsed = []\<rparr>) \<and>
   EmptySubentryList \<notin> set (diagnostics (fst (parse_word_entry ''w n. junk'')))"
  by code_simp

text \<open>
  C7, amended. When the text left after the word holds no level code, the list of raw
  subentries is empty, \<^verbatim>\<open>parse_word_entry\<close> ends without an exception with an empty list
  of parsed subentries, and its log holds the three trace messages and no diagnostic of
  any kind.
\<close>

theorem C7_no_level_no_subentries:
  assumes "level_pattern_search (line_after_removing_word line) = None"
  shows "split_subentries (line_after_removing_word line) = [] \<and>
         parse_word_entry line =
           ([BEGIN_PARSING_WORD_ENTRY line, FOUND_WORD (found_word line),
             LINE_AFTER_REMOVING_WORD (line_after_removing_word line)],
            Inr \<lparr>word = found_word line, remainder = line_after_removing_word line,
                 subentries = [], parsed = []\<rparr>) \<and>
         diagnostics (fst (parse_word_entry line)) = []"
  using split_subentries_no_level[OF assms]
  by (simp add: parse_word_entry_def diagnostics_def map_filter_simps Let_def)

text \<open>The theorem of C7 at the line \<^verbatim>\<open>hello adj. soon\<close>.\<close>

theorem C7_witness:
  "level_pattern_search (line_after_removing_word ''hello adj. soon'') = None \<and>
   split_subentries (line_after_removing_word ''hello adj. soon'') = [] \<and>
   snd (parse_word_entry ''hello adj. soon'') =
     Inr \<lparr>word = ''hello'', remainder = ''adj. soon'', subentries = [], parsed = []\<rparr> \<and>
   diagnostics (fst (parse_word_entry ''hello adj. soon'')) = []"
proof -
  have h: "level_pattern_search (line_after_removing_word ''hello adj. soon'') = None"
    by code_simp
  have w: "found_word ''hello adj. soon'' = ''hello''" by code_simp
  have r: "line_after_removing_word ''hello adj. soon'' = ''adj. soon''" by code_simp
  from C7_no_level_no_subentries[OF h] h w r show ?thesis
    by (simp add: diagnostics_def map_filter_simps)
qed

subsection \<open>What a raw subentry looks like\<close>

lemma endswith_append: "endswith (x @ l) l"
  by (simp add: endswith_def suffix_def)

lemma subentry_loop_ends_with_level:
  "sub \<in> set (subentry_loop part cs) \<Longrightarrow> list_ex (endswith sub) LEVEL_VALUES"
proof (induction cs arbitrary: part)
  case Nil
  then show ?case by simp
next
  case (Cons c cs)
  let ?cand = "strip c"
  show ?case
  proof (cases "?cand = []")
    case True
    with Cons show ?thesis by simp
  next
    case ne: False
    show ?thesis
    proof (cases "?cand \<in> set LEVEL_VALUES")
      case True
      with ne Cons.prems have "sub = part @ '' '' @ ?cand \<or> sub \<in> set (subentry_loop part cs)"
        by (simp add: Let_def)
      then show ?thesis
      proof
        assume "sub = part @ '' '' @ ?cand"
        then have "endswith sub ?cand" using endswith_append[of "part @ '' ''" ?cand] by simp
        with True show ?thesis unfolding list_ex_iff by blast
      next
        assume "sub \<in> set (subentry_loop part cs)"
        then show ?thesis by (rule Cons.IH)
      qed
    next
      case nl: False
      show ?thesis
      proof (cases "list_ex (endswith ?cand) LEVEL_VALUES")
        case True
        with ne nl Cons.prems have "sub = ?cand \<or> sub \<in> set (subentry_loop part cs)"
          by (simp add: Let_def)
        with True Cons.IH show ?thesis by blast
      next
        case False
        with ne nl Cons.prems have "sub \<in> set (subentry_loop ?cand cs)"
          by (simp add: Let_def)
        then show ?thesis by (rule Cons.IH)
      qed
    qed
  qed
qed

lemma level_occurrences_append_level:
  assumes "l \<in> set LEVEL_VALUES"
  shows "1 \<le> level_occurrences (x @ l)"
proof (induction x)
  case Nil
  from assms obtain a b where l: "l = [a, b]" by (auto simp: LEVEL_VALUES_def)
  have "list_ex (\<lambda>l'. prefix l' l) LEVEL_VALUES"
    unfolding list_ex_iff using assms by blast
  with l show ?case by simp
next
  case (Cons c x)
  then show ?case by simp
qed

text \<open>
  C3, as stated, fails: a level code that is not followed by a comma does not cut the
  text, so the only subentry of \<^verbatim>\<open>n. A1 B1\<close> holds two level codes.
\<close>

theorem C3_counterexample:
  "split_subentries ''n. A1 B1'' = [''n. A1 B1''] \<and> level_occurrences ''n. A1 B1'' = 2"
  by code_simp

text \<open>
  C3, amended. Every raw subentry that the splitter emits ends in a level code, and so
  holds at least one occurrence of a level code; it can hold more than one.
\<close>

theorem C3_subentry_ends_in_level:
  assumes "sub \<in> set (split_subentries line)"
  shows "list_ex (endswith sub) LEVEL_VALUES \<and> 1 \<le> level_occurrences sub"
proof -
  from assms have e: "list_ex (endswith sub) LEVEL_VALUES"
    unfolding split_subentries_def by (rule subentry_loop_ends_with_level)
  then obtain l x where "l \<in> set LEVEL_VALUES" and "sub = x @ l"
    unfolding list_ex_iff endswith_def suffix_def by blast
  then have "1 \<le> level_occurrences sub"
    using level_occurrences_append_level by simp
  with e show ?thesis ..
qed

text \<open>The theorem of C3 at a subentry that holds two level codes.\<close>

theorem C3_witness:
  "''n. A1 v. B1'' \<in> set (split_subentries ''n. A1 v. B1, adj. C1'') \<and>
   list_ex (endswith ''n. A1 v. B1'') LEVEL_VALUES \<and>
   1 \<le> level_occurrences ''n. A1 v. B1''"
proof -
  have h: "''n. A1 v. B1'' \<in> set (split_subentries ''n. A1 v. B1, adj. C1'')"
    by code_simp
  from C3_subentry_ends_in_level[OF h] h show ?thesis by simp
qed

subsection \<open>The carried text\<close>

text \<open>
  C4. The local \<^verbatim>\<open>subentry_part\<close> is never reset after a subentry is closed: for the text
  \<^verbatim>\<open>(d) B1, B2\<close> the second subentry is built from the text \<^verbatim>\<open>(d)\<close> that already went
  into the first one. C4 asks for a second subentry that holds no text from before the
  first cut.
\<close>

theorem C4_buffer_carried_over:
  "split_subentries ''(d) B1, B2'' = [''(d) B1'', ''(d) B2'']"
  by code_simp

subsection \<open>Text after the last cut\<close>

lemma prefix_take_iff: "prefix u s \<longleftrightarrow> length u \<le> length s \<and> take (length u) s = u"
  by (metis append_eq_conv_conj append_take_drop_id le_add1 length_append prefix_def)

lemma find_level_comma_take:
  "find (\<lambda>l. prefix (l @ '','') s) LEVEL_VALUES =
   find (\<lambda>l. prefix (l @ '','') (take 3 s)) LEVEL_VALUES"
proof (rule find_cong)
  show "LEVEL_VALUES = LEVEL_VALUES" ..
next
  fix l assume "l \<in> set LEVEL_VALUES"
  then have "length (l @ '','') = 3" by (simp add: level_length)
  then show "prefix (l @ '','') s = prefix (l @ '','') (take 3 s)"
    by (auto simp: prefix_take_iff)
qed

lemma take_append_long: "n \<le> length u \<Longrightarrow> take n (u @ t) = take n u"
  by simp

lemma case_snoc:
  "cs \<noteq> [] \<Longrightarrow>
   (case cs @ [z] of p # ps \<Rightarrow> (a # p) # ps | [] \<Rightarrow> [[a]]) = ((a # hd cs) # tl cs) @ [z]"
  by (cases cs) simp_all

lemma level_comma_split_level:
  assumes "l \<in> set LEVEL_VALUES"
  shows "level_comma_split (l @ '','' @ t) = [] # l # level_comma_split t"
  using assms by (auto simp: LEVEL_VALUES_def)

lemma level_comma_split_trailing:
  assumes l: "l \<in> set LEVEL_VALUES" and t: "level_pattern_search t = None"
  shows "\<exists>cs. cs \<noteq> [] \<and> level_comma_split (r @ l @ '','') = cs @ [[]] \<and>
              level_comma_split (r @ l @ '','' @ t) = cs @ [t]"
proof (induction r rule: length_induct)
  case (1 r)
  from l obtain x y where xy: "l = [x, y]" and x: "x \<noteq> CHR '',''" and y: "y \<noteq> CHR '',''"
    by (auto simp: LEVEL_VALUES_def)
  show ?case
  proof (cases r)
    case Nil
    have "level_comma_split (l @ '','' @ t) = [[], l] @ [t]"
      using level_comma_split_level[OF l, of t] no_level_comma_split[OF t] by simp
    moreover have "level_comma_split (l @ '','') = [[], l] @ [[]]"
      using level_comma_split_level[OF l, of "[]"] by simp
    ultimately show ?thesis using Nil by (metis append_Nil list.distinct(1))
  next
    case (Cons a r')
    let ?short = "a # r' @ l @ '',''" and ?long = "a # r' @ l @ '','' @ t"
    have lg: "?long = ?short @ t" by simp
    have tk: "take 3 ?long = take 3 ?short"
      unfolding lg by (rule take_append_long) (simp add: xy)
    have fe: "find (\<lambda>k. prefix (k @ '','') ?long) LEVEL_VALUES =
              find (\<lambda>k. prefix (k @ '','') ?short) LEVEL_VALUES"
      using find_level_comma_take[of ?long] find_level_comma_take[of ?short] tk by simp
    show ?thesis
    proof (cases "find (\<lambda>k. prefix (k @ '','') ?short) LEVEL_VALUES")
      case None
      from 1 Cons obtain cs where cs: "cs \<noteq> []"
        and s: "level_comma_split (r' @ l @ '','') = cs @ [[]]"
        and g: "level_comma_split (r' @ l @ '','' @ t) = cs @ [t]" by auto
      from None s cs have "level_comma_split ?short = ((a # hd cs) # tl cs) @ [[]]"
        by (simp add: case_snoc)
      moreover from None fe g cs have "level_comma_split ?long = ((a # hd cs) # tl cs) @ [t]"
        by (simp add: case_snoc)
      ultimately show ?thesis using Cons by auto
    next
      case (Some k)
      from find_SomeD[OF Some] have k: "k \<in> set LEVEL_VALUES"
        and p: "prefix (k @ '','') ?short" by simp_all
      from k have lk: "length k = 2" by (rule level_length)
      then obtain k1 k2 where k12: "k = [k1, k2]"
        by (metis (no_types) length_0_conv length_Suc_conv numeral_2_eq_2)
      have len: "3 \<le> length r"
      proof (rule ccontr)
        assume "\<not> 3 \<le> length r"
        with Cons have "length r' < 2" by simp
        then have "r' = [] \<or> (\<exists>b. r' = [b])"
          by (cases r'; cases "tl r'") auto
        with p k12 xy x y show False by auto
      qed
      then obtain r'' where r'': "drop 3 r = r''" and shorter: "length r'' < length r"
        by auto
      from len have d1: "drop (length k + 1) ?short = r'' @ l @ '',''"
        and d2: "drop (length k + 1) ?long = r'' @ l @ '','' @ t"
        using Cons r'' lk by auto
      from 1 shorter obtain cs where cs: "cs \<noteq> []"
        and s: "level_comma_split (r'' @ l @ '','') = cs @ [[]]"
        and g: "level_comma_split (r'' @ l @ '','' @ t) = cs @ [t]" by blast
      from Some d1 s have "level_comma_split ?short = ([] # k # cs) @ [[]]"
        by simp
      moreover from Some fe d2 g have "level_comma_split ?long = ([] # k # cs) @ [t]"
        by simp
      ultimately show ?thesis using Cons by (metis append_Cons list.distinct(1))
    qed
  qed
qed

lemma subentry_loop_snoc_silent:
  assumes "strip z = [] \<or> (strip z \<notin> set LEVEL_VALUES \<and> \<not> list_ex (endswith (strip z)) LEVEL_VALUES)"
  shows "subentry_loop part (cs @ [z]) = subentry_loop part cs"
  using assms by (induction cs arbitrary: part) (auto simp: Let_def)

text \<open>
  C10. Let the text end in a level code, a comma, and a trailing text \<open>t\<close> in which no
  level code occurs. Then the splitter emits exactly the subentries it emits without
  \<open>t\<close>: nothing is emitted for the trailing text. Its log records hold one trace message
  for each subentry and no diagnostic.
\<close>

theorem C10_trailing_text_dropped:
  assumes "l \<in> set LEVEL_VALUES" and "level_pattern_search t = None"
  shows "split_subentries (r @ l @ '','' @ t) = split_subentries (r @ l @ '','') \<and>
         diagnostics (map SUBENTRY (split_subentries (r @ l @ '','' @ t))) = []"
proof -
  from level_comma_split_trailing[OF assms, of r] obtain cs
    where s: "level_comma_split (r @ l @ '','') = cs @ [[]]"
      and g: "level_comma_split (r @ l @ '','' @ t) = cs @ [t]" by blast
  have n: "level_pattern_search (strip t) = None" using assms(2) by (rule no_level_strip)
  have "subentry_loop [] (cs @ [t]) = subentry_loop [] cs"
    using no_level_not_level[OF n] no_level_not_endswith[OF n]
    by (intro subentry_loop_snoc_silent) simp
  moreover have "subentry_loop [] (cs @ [[]]) = subentry_loop [] cs"
    by (intro subentry_loop_snoc_silent) (simp add: strip_def)
  ultimately have e: "split_subentries (r @ l @ '','' @ t) = split_subentries (r @ l @ '','')"
    unfolding split_subentries_def s g by simp
  have "diagnostics (map SUBENTRY xs) = []" for xs
    by (induction xs) (simp_all add: diagnostics_def map_filter_simps)
  with e show ?thesis by simp
qed

text \<open>The theorem of C10 at the text \<^verbatim>\<open>(d) B1, junk\<close>.\<close>

theorem C10_witness:
  "''B1'' \<in> set LEVEL_VALUES \<and> level_pattern_search '' junk'' = None \<and>
   split_subentries (''(d) '' @ ''B1'' @ '','' @ '' junk'') = [''(d) B1''] \<and>
   diagnostics (map SUBENTRY (split_subentries (''(d) '' @ ''B1'' @ '','' @ '' junk''))) = []"
proof -
  have a: "''B1'' \<in> set LEVEL_VALUES" by code_simp
  have b: "level_pattern_search '' junk'' = None" by code_simp
  have c: "split_subentries (''(d) '' @ ''B1'' @ '','') = [''(d) B1'']" by code_simp
  from C10_trailing_text_dropped[OF a b, of "''(d) ''"] a b c show ?thesis
    by (simp add: diagnostics_def map_filter_simps)
qed

section \<open>A subentry without a level\<close>


subsection \<open>The level survives the removal of the definition\<close>














end
